theory Spec2Isabelle
  imports Main "HOL-Library.Char_ord" "HOL-Library.List_Lexorder" "HOL-Library.Product_Lexorder"
    "HOL-Library.Multiset"
begin

section \<open>Strings and the library functions the generator calls\<close>

text \<open>
  A Go \<^verbatim>\<open>string\<close> is a sequence of bytes, here a \<^typ>\<open>string\<close> (a list of 8-bit
  characters). Go compares strings byte by byte; that is the lexicographic order on
  lists over the order of characters by their code, which is the order \<open><\<close> on
  \<^typ>\<open>string\<close> in this theory.
\<close>

definition HasSuffix :: "string \<Rightarrow> string \<Rightarrow> bool" where
  "HasSuffix s suffix =
     (length s \<ge> length suffix \<and> drop (length s - length suffix) s = suffix)"

definition TrimSuffix :: "string \<Rightarrow> string \<Rightarrow> string" where
  "TrimSuffix s suffix =
     (if HasSuffix s suffix then take (length s - length suffix) s else s)"

definition HasPrefix :: "string \<Rightarrow> string \<Rightarrow> bool" where
  "HasPrefix s prefix = (length s \<ge> length prefix \<and> take (length prefix) s = prefix)"

text \<open>
  \<^verbatim>\<open>strings.Split(s, sep)\<close> for a non-empty separator: the pieces of \<open>s\<close> between the
  occurrences of \<open>sep\<close>, found from the left without overlap. (The generator only
  splits at \<^verbatim>\<open>", "\<close>; with an empty separator Go splits into characters, which is
  not modelled: the equation below then returns the one piece \<open>s\<close>.)
\<close>

function Split :: "string \<Rightarrow> string \<Rightarrow> string list" where
  "Split [] sep = [[]]"
| "Split (c # cs) sep =
     (if sep \<noteq> [] \<and> HasPrefix (c # cs) sep
      then [] # Split (drop (length sep) (c # cs)) sep
      else (case Split cs sep of
              [] \<Rightarrow> [[c]]
            | t # ts \<Rightarrow> (c # t) # ts))"
  by pat_completeness auto
termination
  by (relation "measure (\<lambda>(s, sep). length s)") auto

fun Join :: "string list \<Rightarrow> string \<Rightarrow> string" where
  "Join [] sep = []"
| "Join [x] sep = x"
| "Join (x # y # ys) sep = x @ sep @ Join (y # ys) sep"

section \<open>linkTypeName\<close>

definition linkedTypes :: "string list" where
  "linkedTypes =
     [''int'', ''decimal'', ''float'', ''bool'', ''date'', ''timestamp'', ''interval'',
      ''string'', ''bytes'', ''inet'', ''uuid'', ''collatedstring'']"

definition linkTypeName :: "string \<Rightarrow> string" where
  \<open>linkTypeName s0 =
     (let s = TrimSuffix s0 ''{}'';
          name = s;
          s = (if s = ''timestamptz'' then ''timestamp'' else s);
          s = TrimSuffix s ''[]''
      in if s \<in> set linkedTypes
         then ''<a href="'' @ s @ ''.html">'' @ name @ ''</a>''
         else s)\<close>

section \<open>linkArguments\<close>

text \<open>
  \<^verbatim>\<open>linkRE\<close> is \<^verbatim>\<open>([a-z]+)([\.\[\]]*)$\<close>. A match ends at the end of the text,
  consists of the whole trailing run of the characters \<^verbatim>\<open>.\<close>, \<^verbatim>\<open>[\<close>, \<^verbatim>\<open>]\<close>
  (group 2) and a non-empty run of lower-case letters before it (group 1); the
  leftmost match takes the whole run of letters. \<open>linkRE_Find s\<close> is the text before
  the leftmost match and the two groups, or \<open>None\<close> when there is no match.
\<close>

definition isLowerAZ :: "char \<Rightarrow> bool" where
  "isLowerAZ c = (CHR ''a'' \<le> c \<and> c \<le> CHR ''z'')"

definition isDotBracket :: "char \<Rightarrow> bool" where
  "isDotBracket c = (c = CHR ''.'' \<or> c = CHR ''['' \<or> c = CHR '']'')"

definition linkRE_Find :: "string \<Rightarrow> (string \<times> string \<times> string) option" where
  "linkRE_Find s =
     (let r = rev s;
          g2 = rev (takeWhile isDotBracket r);
          r = dropWhile isDotBracket r;
          g1 = rev (takeWhile isLowerAZ r);
          before = rev (dropWhile isLowerAZ r)
      in if g1 = [] then None else Some (before, g1, g2))"

text \<open>
  \<^verbatim>\<open>linkRE.ReplaceAllStringFunc(s, repl)\<close>: the pattern needs a letter and ends at the
  end of the text, so there is at most one match to replace.
\<close>

definition linkRE_ReplaceAllStringFunc :: "string \<Rightarrow> (string \<Rightarrow> string) \<Rightarrow> string" where
  "linkRE_ReplaceAllStringFunc s repl =
     (case linkRE_Find s of
        None \<Rightarrow> s
      | Some (before, g1, g2) \<Rightarrow> before @ repl (g1 @ g2))"

definition linkArguments :: "string \<Rightarrow> string" where
  "linkArguments t =
     (let sp = Split t '', '';
          sp = map (\<lambda>s. linkRE_ReplaceAllStringFunc s
                  (\<lambda>s. case linkRE_Find s of
                          Some (before, match1, match2) \<Rightarrow> linkTypeName match1 @ match2
                        | None \<Rightarrow> s)) sp
      in Join sp '', '')"

text \<open>
  The callback runs \<^verbatim>\<open>FindStringSubmatch\<close> on the matched text, where the pattern
  matches again (lemma \<open>linkRE_Find_match\<close> below), so its \<open>None\<close> branch, where
  Go would fail on \<^verbatim>\<open>match[1]\<close>, is never taken.
\<close>

section \<open>Go maps from keys to slices\<close>

text \<open>
  \<^verbatim>\<open>map[string][]T\<close> is an association list with one pair per key. Reading a
  missing key gives the nil slice; \<^verbatim>\<open>m[k] = append(m[k], x)\<close> extends the slice of
  \<open>k\<close> or adds the key. The order of the pairs is of no consequence: the generator
  sorts the keys of both of its maps before it uses them.
\<close>

fun at :: "('k \<times> 'v list) list \<Rightarrow> 'k \<Rightarrow> 'v list" where
  "at [] k = []"
| "at ((k', v) # m) k = (if k' = k then v else at m k)"

fun appendAt :: "'k \<Rightarrow> 'v \<Rightarrow> ('k \<times> 'v list) list \<Rightarrow> ('k \<times> 'v list) list" where
  "appendAt k x [] = [(k, [x])]"
| "appendAt k x ((k', v) # m) =
     (if k' = k then (k', v @ [x]) # m else (k', v) # appendAt k x m)"

section \<open>Operators\<close>

record operation =
  left :: string
  right :: string
  ret :: string
  op :: string

definition operation_String :: "operation \<Rightarrow> string" where
  \<open>operation_String v =
     (if right v = ''''
      then ''<code>'' @ op v @ ''</code>'' @ linkTypeName (left v)
      else linkTypeName (left v) @ '' <code>'' @ op v @ ''</code> '' @ linkTypeName (right v))\<close>

type_synonym operations = "operation list"

definition Less :: "operation \<Rightarrow> operation \<Rightarrow> bool" where
  "Less pi pj =
     (if right pi \<noteq> '''' \<and> right pj = '''' then False
      else if right pi = '''' \<and> right pj \<noteq> '''' then True
      else if left pi \<noteq> left pj then left pi < left pj
      else if right pi \<noteq> right pj then right pi < right pj
      else ret pi < ret pj)"

text \<open>
  \<^verbatim>\<open>sort.Sort\<close> orders a slice by its \<^verbatim>\<open>Less\<close>; it promises no more than a sorted
  rearrangement. It is modelled by insertion sort. Lemma \<open>Sort_unique\<close> below shows
  that the choice is immaterial for a collection of one operator symbol: every
  rearrangement that is sorted by \<open>Less\<close> is the same list.
\<close>

fun insertOp :: "operation \<Rightarrow> operations \<Rightarrow> operations" where
  "insertOp x [] = [x]"
| "insertOp x (y # ys) = (if Less x y then x # y # ys else y # insertOp x ys)"

definition Sort :: "operations \<Rightarrow> operations" where
  "Sort p = foldr insertOp p []"

text \<open>
  Modelled from the spec: the overload types \<^verbatim>\<open>parser.UnaryOp\<close>, \<^verbatim>\<open>parser.BinOp\<close> and
  \<^verbatim>\<open>parser.CmpOp\<close> and the catalogs \<^verbatim>\<open>parser.UnaryOps\<close>, \<^verbatim>\<open>parser.BinOps\<close> and
  \<^verbatim>\<open>parser.CmpOps\<close>, which the package \<^verbatim>\<open>parser\<close> declares outside the source. An
  overload is a record of what the generator reads from it, each type by its
  \<^verbatim>\<open>String()\<close>; a catalog is an argument of the generator, the list of its entries in
  the order \<^verbatim>\<open>range\<close> visits them, each key by its \<^verbatim>\<open>String()\<close> (two keys may have
  the same).
\<close>

record UnaryOp =
  UnaryOp_Typ :: string
  UnaryOp_ReturnType :: string

record BinOp =
  BinOp_LeftType :: string
  BinOp_RightType :: string
  BinOp_ReturnType :: string

record CmpOp =
  CmpOp_LeftType :: string
  CmpOp_RightType :: string

text \<open>
  The entries that the three loops build. A field that a struct literal does not
  name is the empty string. The comparison overload may carry more than its two
  types (a record scheme): the loop reads nothing else of it.
\<close>

definition unaryOperation :: "string \<Rightarrow> UnaryOp \<Rightarrow> operation" where
  "unaryOperation op' v =
     \<lparr>left = UnaryOp_Typ v, right = '''', ret = UnaryOp_ReturnType v, op = op'\<rparr>"

definition binOperation :: "string \<Rightarrow> BinOp \<Rightarrow> operation" where
  "binOperation op' v =
     (let left' = BinOp_LeftType v;
          right' = BinOp_RightType v
      in \<lparr>left = left', right = right', ret = BinOp_ReturnType v, op = op'\<rparr>)"

definition cmpOperation :: "string \<Rightarrow> 'a CmpOp_scheme \<Rightarrow> operation" where
  "cmpOperation op' v =
     (let left' = CmpOp_LeftType v;
          right' = CmpOp_RightType v
      in \<lparr>left = left', right = right', ret = ''bool'', op = op'\<rparr>)"

type_synonym opsmap = "(string \<times> operations) list"

definition collectOps :: "(string \<Rightarrow> 'v \<Rightarrow> operation) \<Rightarrow> (string \<times> 'v list) list \<Rightarrow> opsmap \<Rightarrow> opsmap" where
  "collectOps mk catalog ops =
     fold (\<lambda>(op', overloads) ops.
             fold (\<lambda>v ops. appendAt op' (mk op' v) ops) overloads ops)
          catalog ops"

definition operatorTable :: "opsmap \<Rightarrow> string \<Rightarrow> string" where
  \<open>operatorTable ops op' =
     ''<table><thead>\<newline>''
     @ ''<tr><td><code>'' @ op' @ ''</code></td><td>Return</td></tr>\<newline>''
     @ ''</thead><tbody>\<newline>''
     @ concat (map (\<lambda>v. ''<tr><td>'' @ operation_String v @ ''</td><td>''
                          @ linkTypeName (ret v) @ ''</td></tr>\<newline>'') (at ops op'))
     @ ''</tbody></table>''
     @ ''\<newline>''\<close>

definition generateOperators ::
  "(string \<times> UnaryOp list) list \<Rightarrow> (string \<times> BinOp list) list
     \<Rightarrow> (string \<times> 'a CmpOp_scheme list) list \<Rightarrow> string" where
  "generateOperators UnaryOps BinOps CmpOps =
     (let ops = [];
          ops = collectOps unaryOperation UnaryOps ops;
          ops = collectOps binOperation BinOps ops;
          ops = collectOps cmpOperation CmpOps ops;
          ops = map (\<lambda>(k, v). (k, Sort v)) ops;
          opstrs = sort (map fst ops)
      in concat (map (operatorTable ops) opstrs))"

section \<open>Functions\<close>

text \<open>
  Modelled from the spec: the type \<^verbatim>\<open>parser.Builtin\<close>, which the package \<^verbatim>\<open>parser\<close>
  declares outside the source. An overload is a record of what the generator reads
  from it: \<^verbatim>\<open>fn.Types.String()\<close>, \<^verbatim>\<open>fn.FixedReturnType().String()\<close>, \<^verbatim>\<open>fn.Category()\<close>,
  whether \<^verbatim>\<open>fn.WindowFunc\<close> is nil (\<open>None\<close>) and \<^verbatim>\<open>fn.Info\<close>. The catalog
  (\<^verbatim>\<open>parser.Builtins\<close> or \<^verbatim>\<open>parser.Aggregates\<close>) is the argument \<^verbatim>\<open>from\<close>, the list of
  its entries in the order \<^verbatim>\<open>range\<close> visits them.
\<close>

record Builtin =
  Types :: string
  FixedReturnType :: string
  Category :: string
  WindowFunc :: "unit option"
  Info :: string

definition notUsableInfo :: string where
  "notUsableInfo = ''Not usable; exposed only for compatibility with PostgreSQL.''"

type_synonym rowmap = "(string \<times> string list) list"

text \<open>
  The body of the loop over the overloads of one name. \<open>md\<close> is the Markdown
  renderer \<^verbatim>\<open>md.RenderToString\<close>, a library that is not part of the source.
\<close>

definition overloadStep :: "(string \<Rightarrow> string) \<Rightarrow> bool \<Rightarrow> string \<Rightarrow> Builtin \<Rightarrow> rowmap \<Rightarrow> rowmap" where
  \<open>overloadStep md categorize name fn functions =
     (if Info fn = notUsableInfo then functions
      else if categorize \<and> WindowFunc fn \<noteq> None then functions
      else
        let args = Types fn;
            ret' = FixedReturnType fn;
            cat = ret';
            cat = (let c = Category fn in if c \<noteq> '''' then c else cat);
            cat = (if \<not> categorize then '''' else cat);
            extra = '''';
            extra = (if Info fn \<noteq> ''''
                     then let info = md (Info fn)
                          in ''<span class="funcdesc">'' @ info @ ''</span>''
                     else extra);
            s = ''<tr><td><code>'' @ name @ ''('' @ linkArguments args @ '') &rarr; ''
                @ linkArguments ret' @ ''</code></td><td>'' @ extra @ ''</td></tr>''
        in appendAt cat s functions)\<close>

text \<open>
  The loop over the catalog, on the pair of \<^verbatim>\<open>functions\<close> and \<^verbatim>\<open>seen\<close>.
  \<open>ToLower\<close> is \<^verbatim>\<open>strings.ToLower\<close>, whose Unicode tables are not part of the
  source.
\<close>

definition nameStep ::
  "(string \<Rightarrow> string) \<Rightarrow> (string \<Rightarrow> string) \<Rightarrow> bool \<Rightarrow> string \<times> Builtin list
     \<Rightarrow> rowmap \<times> string set \<Rightarrow> rowmap \<times> string set" where
  "nameStep ToLower md categorize entry st =
     (case (entry, st) of ((name, fns), (functions, seen)) \<Rightarrow>
        let name = ToLower name
        in if name \<in> seen then (functions, seen)
           else let seen = insert name seen
                in (fold (overloadStep md categorize name) fns functions, seen))"

definition collectFunctions ::
  "(string \<Rightarrow> string) \<Rightarrow> (string \<Rightarrow> string) \<Rightarrow> (string \<times> Builtin list) list \<Rightarrow> bool \<Rightarrow> rowmap" where
  "collectFunctions ToLower md from categorize =
     fst (fold (nameStep ToLower md categorize) from ([], {}))"

text \<open>
  The hack that moves \<^verbatim>\<open>"Compatibility"\<close> to the end: at the first index \<open>i\<close> that
  holds it, \<^verbatim>\<open>append(append(cats[:i], cats[i+1:]...), "Compatibility")\<close> shifts the
  rest of the slice down in place and writes the name at the end; the loop stops
  there.
\<close>

fun compatibilityLast :: "string list \<Rightarrow> string list" where
  "compatibilityLast [] = []"
| "compatibilityLast (cat # cats) =
     (if cat = ''Compatibility'' then cats @ [''Compatibility'']
      else cat # compatibilityLast cats)"

definition categoryOrder :: "rowmap \<Rightarrow> string list" where
  "categoryOrder functions = compatibilityLast (sort (map fst functions))"

definition categoryTable :: "bool \<Rightarrow> rowmap \<Rightarrow> string \<Rightarrow> string" where
  \<open>categoryTable categorize functions cat =
     (if categorize then ''### '' @ cat @ '' Functions\<newline>\<newline>'' else '''')
     @ ''<table>\<newline><thead><tr><th>Function &rarr; Returns</th><th>Description</th></tr></thead>\<newline>''
     @ ''<tbody>\<newline>''
     @ Join (at functions cat) ''\<newline>''
     @ ''</tbody>\<newline></table>\<newline>\<newline>''\<close>

definition generateFunctions ::
  "(string \<Rightarrow> string) \<Rightarrow> (string \<Rightarrow> string) \<Rightarrow> (string \<times> Builtin list) list \<Rightarrow> bool \<Rightarrow> string" where
  "generateFunctions ToLower md from categorize =
     (let functions = collectFunctions ToLower md from categorize;
          functions = map (\<lambda>(k, v). (k, sort v)) functions;
          cats = categoryOrder functions
      in concat (map (categoryTable categorize functions) cats))"

section \<open>Definitions used to state the properties\<close>

text \<open>
  The name that \<^verbatim>\<open>linkTypeName\<close> looks up in its second \<^verbatim>\<open>switch\<close>: the spelling
  without a trailing \<^verbatim>\<open>{}\<close>, with \<^verbatim>\<open>timestamptz\<close> replaced by \<^verbatim>\<open>timestamp\<close>, without
  a trailing \<^verbatim>\<open>[]\<close>.
\<close>

definition baseTypeName :: "string \<Rightarrow> string" where
  "baseTypeName s0 =
     (let s = TrimSuffix s0 ''{}'';
          s = (if s = ''timestamptz'' then ''timestamp'' else s)
      in TrimSuffix s ''[]'')"

text \<open>
  \<^verbatim>\<open>strings.ToLower\<close> on ASCII text, where Go maps the bytes \<^verbatim>\<open>A\<close> to \<^verbatim>\<open>Z\<close> to
  \<^verbatim>\<open>a\<close> to \<^verbatim>\<open>z\<close> and keeps every other byte. It is used at concrete catalogs only.
\<close>

definition ToLowerASCII :: "string \<Rightarrow> string" where
  "ToLowerASCII s =
     map (\<lambda>c. if CHR ''A'' \<le> c \<and> c \<le> CHR ''Z'' then char_of (of_char c + (32::nat)) else c) s"

text \<open>
  The four keys that \<open>Less\<close> compares in turn, as one tuple under the lexicographic
  order (\<open>False < True\<close>, so an entry with an empty right type comes first).
\<close>

definition opKey :: "operation \<Rightarrow> bool \<times> string \<times> string \<times> string" where
  "opKey v = (right v \<noteq> '''', left v, right v, ret v)"

text \<open>
  The invariant of both maps of the generator: one pair per key, and no key with an
  empty slice (a key enters the map when the first element is appended to it).
\<close>

definition wellKeyed :: "('k \<times> 'v list) list \<Rightarrow> bool" where
  "wellKeyed m \<longleftrightarrow> distinct (map fst m) \<and> [] \<notin> snd ` set m"

text \<open>
  The entries that one catalog contributes to the operator symbol \<open>k\<close>, in the order
  of their construction, and the map \<^verbatim>\<open>ops\<close> after the three loops.
\<close>

definition entriesFor ::
  "(string \<Rightarrow> 'v \<Rightarrow> operation) \<Rightarrow> (string \<times> 'v list) list \<Rightarrow> string \<Rightarrow> operations" where
  "entriesFor mk catalog k =
     concat (map (\<lambda>(op', overloads). if op' = k then map (mk op') overloads else []) catalog)"

definition collectedOps ::
  "(string \<times> UnaryOp list) list \<Rightarrow> (string \<times> BinOp list) list
     \<Rightarrow> (string \<times> 'a CmpOp_scheme list) list \<Rightarrow> opsmap" where
  "collectedOps UnaryOps BinOps CmpOps =
     collectOps cmpOperation CmpOps
       (collectOps binOperation BinOps (collectOps unaryOperation UnaryOps []))"

text \<open>
  The parts of the body of the loop over the overloads, by name: whether the overload
  passes the two \<^verbatim>\<open>continue\<close> tests, the category \<^verbatim>\<open>cat\<close> and the row \<^verbatim>\<open>s\<close>
  (lemma \<open>overloadStep_eq\<close> below relates them to \<open>overloadStep\<close>); and the rows
  that the overloads of one name add to one category.
\<close>

definition emitted :: "bool \<Rightarrow> Builtin \<Rightarrow> bool" where
  "emitted categorize fn \<longleftrightarrow>
     Info fn \<noteq> notUsableInfo \<and> \<not> (categorize \<and> WindowFunc fn \<noteq> None)"

definition functionCategory :: "bool \<Rightarrow> Builtin \<Rightarrow> string" where
  "functionCategory categorize fn =
     (if \<not> categorize then ''''
      else if Category fn \<noteq> '''' then Category fn
      else FixedReturnType fn)"

definition functionRow :: "(string \<Rightarrow> string) \<Rightarrow> string \<Rightarrow> Builtin \<Rightarrow> string" where
  \<open>functionRow md name fn =
     ''<tr><td><code>'' @ name @ ''('' @ linkArguments (Types fn) @ '') &rarr; ''
     @ linkArguments (FixedReturnType fn) @ ''</code></td><td>''
     @ (if Info fn \<noteq> '''' then ''<span class="funcdesc">'' @ md (Info fn) @ ''</span>'' else '''')
     @ ''</td></tr>''\<close>

definition rowsFor ::
  "(string \<Rightarrow> string) \<Rightarrow> bool \<Rightarrow> string \<Rightarrow> Builtin list \<Rightarrow> string \<Rightarrow> string list" where
  "rowsFor md categorize name fns cat =
     map (functionRow md name)
       (filter (\<lambda>fn. emitted categorize fn \<and> functionCategory categorize fn = cat) fns)"

text \<open>
  The entries of the catalog that the loop does not skip, each under its lower-case
  name, in the order of the iteration: an entry is skipped when its lower-case name
  is in \<open>seen\<close>.
\<close>

fun processed ::
  "(string \<Rightarrow> string) \<Rightarrow> string set \<Rightarrow> (string \<times> 'v) list \<Rightarrow> (string \<times> 'v) list" where
  "processed ToLower seen [] = []"
| "processed ToLower seen ((name, fns) # from) =
     (if ToLower name \<in> seen then processed ToLower seen from
      else (ToLower name, fns) # processed ToLower (insert (ToLower name) seen) from)"

text \<open>
  The catalogs for which the comment in the source holds, that a name appears more
  than once as upper-case and lower-case variants of the same function: keys with
  the same lower-case form have the same overloads.
\<close>

definition aliasesAgree :: "(string \<Rightarrow> string) \<Rightarrow> (string \<times> 'v) list \<Rightarrow> bool" where
  "aliasesAgree ToLower from \<longleftrightarrow>
     (\<forall>e\<in>set from. \<forall>e'\<in>set from.
        ToLower (fst e) = ToLower (fst e') \<longrightarrow> snd e = snd e')"

text \<open>
  \<^verbatim>\<open>strings.Contains(s, substr)\<close>: whether \<open>substr\<close> occurs in \<open>s\<close>. It is used to say
  that a row is, or is not, part of the bytes of the output.
\<close>

fun Contains :: "string \<Rightarrow> string \<Rightarrow> bool" where
  "Contains [] substr = (substr = [])"
| "Contains (c # cs) substr = (HasPrefix (c # cs) substr \<or> Contains cs substr)"

text \<open>
  An overload with no category, no window function and no description, for the
  concrete catalogs below.
\<close>

definition plainBuiltin :: "string \<Rightarrow> string \<Rightarrow> Builtin" where
  "plainBuiltin args ret' =
     \<lparr>Types = args, FixedReturnType = ret', Category = '''', WindowFunc = None, Info = ''''\<rparr>"

section \<open>Properties of linkTypeName\<close>

lemma linkTypeName_base:
  \<open>linkTypeName s =
     (if baseTypeName s \<in> set linkedTypes
      then ''<a href="'' @ baseTypeName s @ ''.html">'' @ TrimSuffix s ''{}'' @ ''</a>''
      else baseTypeName s)\<close>
  by (simp add: linkTypeName_def baseTypeName_def Let_def)

text \<open>
  C5. \<^verbatim>\<open>linkTypeName("timestamptz")\<close> is a link to \<^verbatim>\<open>timestamp.html\<close> that shows
  \<^verbatim>\<open>timestamptz\<close>, \<^verbatim>\<open>linkTypeName("int[]")\<close> is a link to \<^verbatim>\<open>int.html\<close> that shows
  \<^verbatim>\<open>int[]\<close>, and \<^verbatim>\<open>linkTypeName("widget")\<close> is \<^verbatim>\<open>widget\<close>.
\<close>

theorem linkTypeName_examples:
  \<open>linkTypeName ''timestamptz'' = ''<a href="timestamp.html">timestamptz</a>'' \<and>
   linkTypeName ''int[]'' = ''<a href="int.html">int[]</a>'' \<and>
   linkTypeName ''widget'' = ''widget''\<close>
  by code_simp

text \<open>
  C6, as stated: a spelling whose base name is not one of the twelve linked names is
  returned unmodified. It is not: the result has lost the trailing \<^verbatim>\<open>[]\<close> of
  \<^verbatim>\<open>widget[]\<close> and the trailing \<^verbatim>\<open>{}\<close> of \<^verbatim>\<open>widget{}\<close>.
\<close>

theorem linkTypeName_unmodified_counterexample:
  "linkTypeName ''widget[]'' \<noteq> ''widget[]'' \<and> linkTypeName ''widget{}'' \<noteq> ''widget{}''"
  by code_simp

text \<open>
  C6, amended: a spelling whose base name is not one of the twelve linked names, and
  which has no trailing \<^verbatim>\<open>[]\<close> once its trailing \<^verbatim>\<open>{}\<close> is removed, is returned
  without that trailing \<^verbatim>\<open>{}\<close> and otherwise unmodified, with no link.
\<close>

theorem linkTypeName_unrecognized:
  assumes "baseTypeName s \<notin> set linkedTypes"
    and "\<not> HasSuffix (TrimSuffix s ''{}'') ''[]''"
  shows "linkTypeName s = TrimSuffix s ''{}''"
proof -
  have "TrimSuffix s ''{}'' \<noteq> ''timestamptz''"
  proof
    assume "TrimSuffix s ''{}'' = ''timestamptz''"
    then have "baseTypeName s = ''timestamp''"
      by (simp add: baseTypeName_def TrimSuffix_def HasSuffix_def)
    with assms(1) show False by (simp add: linkedTypes_def)
  qed
  then have "baseTypeName s = TrimSuffix s ''{}''"
    using assms(2) by (simp add: baseTypeName_def Let_def TrimSuffix_def[of "TrimSuffix s ''{}''"])
  with assms(1) show ?thesis by (simp add: linkTypeName_base)
qed

theorem linkTypeName_unrecognized_witness:
  "baseTypeName ''widget{}'' \<notin> set linkedTypes
   \<and> \<not> HasSuffix (TrimSuffix ''widget{}'' ''{}'') ''[]''
   \<and> linkTypeName ''widget{}'' = ''widget''"
proof -
  have a: "baseTypeName ''widget{}'' \<notin> set linkedTypes" by code_simp
  have b: "\<not> HasSuffix (TrimSuffix ''widget{}'' ''{}'') ''[]''" by code_simp
  have c: "TrimSuffix ''widget{}'' ''{}'' = ''widget''" by code_simp
  show ?thesis
    using linkTypeName_unrecognized[OF a b] a b c by simp
qed

section \<open>The pattern matches again on its match\<close>

lemma isLowerAZ_not_isDotBracket: "isLowerAZ c \<Longrightarrow> \<not> isDotBracket c"
  by (auto simp: isLowerAZ_def isDotBracket_def)

lemma linkRE_Find_match:
  assumes "linkRE_Find s = Some (before, g1, g2)"
  shows "linkRE_Find (g1 @ g2) = Some ([], g1, g2)"
proof -
  define r where "r = dropWhile isDotBracket (rev s)"
  have g2: "g2 = rev (takeWhile isDotBracket (rev s))"
    and g1: "g1 = rev (takeWhile isLowerAZ r)" and ne: "g1 \<noteq> []"
    using assms unfolding linkRE_Find_def r_def Let_def by (auto split: if_splits)
  have d: "\<forall>c\<in>set (rev g2). isDotBracket c"
    unfolding g2 using set_takeWhileD by fastforce
  have l: "\<forall>c\<in>set (rev g1). isLowerAZ c"
    unfolding g1 using set_takeWhileD by fastforce
  have "hd (rev g1) \<in> set (rev g1)"
    using ne by (intro hd_in_set) simp
  then have hd: "\<not> isDotBracket (hd (rev g1))"
    using l isLowerAZ_not_isDotBracket by blast
  have t: "takeWhile isDotBracket (rev g2 @ rev g1) = rev g2"
    using d hd ne by (cases "rev g1") (simp_all add: takeWhile_append)
  have dr: "dropWhile isDotBracket (rev g2 @ rev g1) = rev g1"
    using d hd ne by (cases "rev g1") (simp_all add: dropWhile_append)
  have tl: "takeWhile isLowerAZ (rev g1) = rev g1" and dl: "dropWhile isLowerAZ (rev g1) = []"
    using l by simp_all
  show ?thesis
    using ne by (simp add: linkRE_Find_def Let_def t dr tl dl)
qed

section \<open>The order of the entries of one operator symbol\<close>

lemma Less_opKey: "Less a b \<longleftrightarrow> opKey a < opKey b"
  unfolding Less_def opKey_def less_prod_def less_eq_prod_def
  by (cases "right a = []"; cases "right b = []"; simp; meson less_le not_less_iff_gr_or_eq)

lemma opKey_eq: "opKey a = opKey b \<Longrightarrow> op a = op b \<Longrightarrow> a = b"
  by (cases a; cases b) (simp add: opKey_def)

lemma set_insertOp: "set (insertOp x ys) = insert x (set ys)"
  by (induction ys) auto

lemma mset_insertOp: "mset (insertOp x ys) = add_mset x (mset ys)"
  by (induction ys) auto

lemma sorted_insertOp:
  "sorted (map opKey ys) \<Longrightarrow> sorted (map opKey (insertOp x ys))"
  by (induction ys) (auto simp: set_insertOp Less_opKey)

lemma mset_Sort: "mset (Sort p) = mset p"
  by (induction p) (simp_all add: Sort_def mset_insertOp)

lemma set_Sort: "set (Sort p) = set p"
  using mset_Sort by (rule mset_eq_setD)

lemma sorted_Sort: "sorted (map opKey (Sort p))"
  by (induction p) (simp_all add: Sort_def sorted_insertOp)

lemma sorted_opKey_unique:
  assumes "sorted (map opKey xs)" "sorted (map opKey ys)"
    and "mset xs = mset ys"
    and "\<forall>a\<in>set xs. op a = k"
  shows "xs = ys"
  using assms
proof (induction xs arbitrary: ys)
  case Nil
  then show ?case by simp
next
  case (Cons x xs)
  have "ys \<noteq> []" using Cons.prems(3) by auto
  then obtain y ys' where ys: "ys = y # ys'" by (cases ys) simp_all
  have "x \<in># mset ys" unfolding Cons.prems(3)[symmetric] by simp
  then have xin: "x = y \<or> x \<in> set ys'" unfolding ys by simp
  have "y \<in># mset (x # xs)" unfolding Cons.prems(3) ys by simp
  then have yin: "y = x \<or> y \<in> set xs" by simp
  have s1: "\<forall>z\<in>set xs. opKey x \<le> opKey z" and s1': "sorted (map opKey xs)"
    using Cons.prems(1) by simp_all
  have s2: "\<forall>z\<in>set ys'. opKey y \<le> opKey z" and s2': "sorted (map opKey ys')"
    using Cons.prems(2) unfolding ys by simp_all
  have 1: "opKey x \<le> opKey y" using s1 yin by blast
  have 2: "opKey y \<le> opKey x" using s2 xin by blast
  have "op x = k" and o: "\<forall>a\<in>set xs. op a = k" using Cons.prems(4) by simp_all
  then have 3: "op x = op y" using yin by auto
  have "opKey x = opKey y" using 1 2 by (rule antisym)
  then have xy: "x = y" using 3 by (rule opKey_eq)
  have m: "mset xs = mset ys'" using Cons.prems(3) unfolding ys xy by simp
  have "xs = ys'" by (rule Cons.IH[OF s1' s2' m o])
  with xy ys show ?case by simp
qed

lemma Sort_unique:
  assumes "mset ys = mset xs" and "sorted_wrt (\<lambda>a b. \<not> Less b a) ys"
    and "\<forall>a\<in>set xs. op a = k"
  shows "ys = Sort xs"
proof -
  have s: "sorted (map opKey ys)"
    using assms(2) by (simp add: sorted_map Less_opKey not_less)
  have "set ys = set xs" using assms(1) by (rule mset_eq_setD)
  then have o: "\<forall>a\<in>set ys. op a = k"
    using assms(3) by simp
  have m: "mset ys = mset (Sort xs)" using assms(1) by (simp add: mset_Sort)
  show ?thesis by (rule sorted_opKey_unique[OF s sorted_Sort m o])
qed

lemma Sort_cong:
  assumes "mset xs = mset ys" and "\<forall>a\<in>set xs. op a = k"
  shows "Sort xs = Sort ys"
proof -
  have o: "\<forall>a\<in>set (Sort xs). op a = k"
    using assms(2) by (simp add: set_Sort)
  have m: "mset (Sort xs) = mset (Sort ys)" using assms(1) by (simp add: mset_Sort)
  show ?thesis by (rule sorted_opKey_unique[OF sorted_Sort sorted_Sort m o])
qed




section \<open>Maps from keys to slices\<close>

lemma at_appendAt: "at (appendAt k x m) k' = (if k' = k then at m k @ [x] else at m k')"
  by (induction k x m rule: appendAt.induct) auto

lemma keys_appendAt: "fst ` set (appendAt k x m) = insert k (fst ` set m)"
  by (induction k x m rule: appendAt.induct) (simp_all add: insert_commute)

lemma vals_appendAt: "[] \<notin> snd ` set m \<Longrightarrow> [] \<notin> snd ` set (appendAt k x m)"
  by (induction k x m rule: appendAt.induct) simp_all

lemma distinct_appendAt: "distinct (map fst m) \<Longrightarrow> distinct (map fst (appendAt k x m))"
proof (induction m)
  case Nil
  then show ?case by simp
next
  case (Cons p m)
  obtain k' v where p: "p = (k', v)" by (cases p)
  show ?case
  proof (cases "k' = k")
    case True
    then show ?thesis using Cons.prems p by simp
  next
    case False
    have "k' \<notin> fst ` set (appendAt k x m)"
      using Cons.prems p False by (simp add: keys_appendAt)
    then show ?thesis using Cons p False by simp
  qed
qed

lemma wellKeyed_Nil: "wellKeyed []"
  by (simp add: wellKeyed_def)

lemma wellKeyed_appendAt: "wellKeyed m \<Longrightarrow> wellKeyed (appendAt k x m)"
  by (simp add: wellKeyed_def distinct_appendAt vals_appendAt)

lemma at_empty_iff: "[] \<notin> snd ` set m \<Longrightarrow> at m k = [] \<longleftrightarrow> k \<notin> fst ` set m"
  by (induction m k rule: at.induct) auto

lemma wellKeyed_keys: "wellKeyed m \<Longrightarrow> set (map fst m) = {k. at m k \<noteq> []}"
  unfolding wellKeyed_def using at_empty_iff[of m] by auto

lemma at_map_values: "f [] = [] \<Longrightarrow> at (map (\<lambda>(k, v). (k, f v)) m) k = f (at m k)"
  by (induction m k rule: at.induct) simp_all

lemma keys_map_values: "map fst (map (\<lambda>(k, v). (k, f v)) m) = map fst m"
  by (simp add: case_prod_beta)

lemma sorted_keys_cong:
  fixes m1 m2 :: "('k::linorder \<times> 'v list) list"
  assumes "wellKeyed m1" "wellKeyed m2" and "\<And>k. at m1 k = [] \<longleftrightarrow> at m2 k = []"
  shows "sort (map fst m1) = sort (map fst m2)"
proof -
  have "set (map fst m1) = set (map fst m2)"
    unfolding wellKeyed_keys[OF assms(1)] wellKeyed_keys[OF assms(2)] using assms(3) by simp
  moreover have "distinct (map fst m1)" "distinct (map fst m2)"
    using assms(1,2) by (simp_all add: wellKeyed_def)
  ultimately show ?thesis
    by (intro sorted_distinct_set_unique) simp_all
qed

lemma at_fold_appendAt:
  "at (fold (\<lambda>v. appendAt k (g v)) vs m) k' = at m k' @ (if k' = k then map g vs else [])"
  by (induction vs arbitrary: m) (simp_all add: at_appendAt)

lemma wellKeyed_fold_appendAt:
  "wellKeyed m \<Longrightarrow> wellKeyed (fold (\<lambda>v. appendAt k (g v)) vs m)"
  by (induction vs arbitrary: m) (simp_all add: wellKeyed_appendAt)

lemma at_collectOps: "at (collectOps mk catalog ops) k = at ops k @ entriesFor mk catalog k"
  unfolding collectOps_def entriesFor_def
  by (induction catalog arbitrary: ops) (auto simp: at_fold_appendAt)

lemma wellKeyed_collectOps: "wellKeyed ops \<Longrightarrow> wellKeyed (collectOps mk catalog ops)"
  unfolding collectOps_def
  by (induction catalog arbitrary: ops) (auto simp: wellKeyed_fold_appendAt)

lemma mset_entriesFor:
  "mset (entriesFor mk catalog k) =
     (\<Sum>(op', overloads)\<in>#mset catalog. if op' = k then mset (map (mk op') overloads) else {#})"
  unfolding entriesFor_def
  by (induction catalog) (auto simp: case_prod_beta)

lemma op_entriesFor:
  "(\<And>op' v. op (mk op' v) = op') \<Longrightarrow> \<forall>a\<in>set (entriesFor mk catalog k). op a = k"
  unfolding entriesFor_def by auto

section \<open>The operator collections\<close>

lemma operatorTable_cong: "at ops1 k = at ops2 k \<Longrightarrow> operatorTable ops1 k = operatorTable ops2 k"
  by (simp add: operatorTable_def)

lemma Sort_Nil: "Sort [] = []"
  by (simp add: Sort_def)

lemma op_unaryOperation: "op (unaryOperation k v) = k"
  by (simp add: unaryOperation_def)

lemma op_binOperation: "op (binOperation k v) = k"
  by (simp add: binOperation_def)

lemma op_cmpOperation: "op (cmpOperation k v) = k"
  by (simp add: cmpOperation_def)

lemma generateOperators_collected:
  "generateOperators U B C =
     concat (map (operatorTable (map (\<lambda>(k, v). (k, Sort v)) (collectedOps U B C)))
                 (sort (map fst (collectedOps U B C))))"
  by (simp add: generateOperators_def collectedOps_def Let_def keys_map_values del: map_map)

lemma at_collectedOps:
  "at (collectedOps U B C) k =
     entriesFor unaryOperation U k @ entriesFor binOperation B k @ entriesFor cmpOperation C k"
  by (simp add: collectedOps_def at_collectOps)

lemma wellKeyed_collectedOps: "wellKeyed (collectedOps U B C)"
  by (simp add: collectedOps_def wellKeyed_collectOps wellKeyed_Nil)

lemma op_collectedOps: "\<forall>a\<in>set (at (collectedOps U B C) k). op a = k"
  using op_entriesFor[of unaryOperation U k, OF op_unaryOperation]
    op_entriesFor[of binOperation B k, OF op_binOperation]
    op_entriesFor[of cmpOperation C k, OF op_cmpOperation]
  by (simp add: at_collectedOps ball_Un)

lemma mset_collectedOps_perm:
  assumes "mset U1 = mset U2" "mset B1 = mset B2" "mset C1 = mset C2"
  shows "mset (at (collectedOps U1 B1 C1) k) = mset (at (collectedOps U2 B2 C2) k)"
  by (simp add: at_collectedOps mset_entriesFor assms)

lemma generateOperators_perm:
  assumes "mset U1 = mset U2" "mset B1 = mset B2" "mset C1 = mset C2"
  shows "generateOperators U1 B1 C1 = generateOperators U2 B2 C2"
proof -
  let ?m1 = "collectedOps U1 B1 C1" and ?m2 = "collectedOps U2 B2 C2"
  have ms: "mset (at ?m1 k) = mset (at ?m2 k)" for k
    by (rule mset_collectedOps_perm[OF assms])
  have srt: "Sort (at ?m1 k) = Sort (at ?m2 k)" for k
    by (rule Sort_cong[OF ms op_collectedOps])
  have "at ?m1 k = [] \<longleftrightarrow> at ?m2 k = []" for k
    using ms[of k] by (metis mset_zero_iff)
  then have keys: "sort (map fst ?m1) = sort (map fst ?m2)"
    by (rule sorted_keys_cong[OF wellKeyed_collectedOps wellKeyed_collectedOps])
  have "operatorTable (map (\<lambda>(k, v). (k, Sort v)) ?m1) k
          = operatorTable (map (\<lambda>(k, v). (k, Sort v)) ?m2) k" for k
    by (rule operatorTable_cong) (simp add: at_map_values Sort_Nil srt)
  then have "operatorTable (map (\<lambda>(k, v). (k, Sort v)) ?m1)
          = operatorTable (map (\<lambda>(k, v). (k, Sort v)) ?m2)"
    by (rule ext)
  then show ?thesis
    unfolding generateOperators_collected keys by simp
qed



section \<open>The function rows\<close>

lemma overloadStep_eq:
  "overloadStep md categorize name fn functions =
     (if emitted categorize fn
      then appendAt (functionCategory categorize fn) (functionRow md name fn) functions
      else functions)"
  by (simp add: overloadStep_def emitted_def functionCategory_def functionRow_def Let_def)

lemma at_fold_overloadStep:
  "at (fold (overloadStep md categorize name) fns m) cat
     = at m cat @ rowsFor md categorize name fns cat"
  by (induction fns arbitrary: m) (simp_all add: overloadStep_eq rowsFor_def at_appendAt)

lemma wellKeyed_fold_overloadStep:
  "wellKeyed m \<Longrightarrow> wellKeyed (fold (overloadStep md categorize name) fns m)"
  by (induction fns arbitrary: m) (simp_all add: overloadStep_eq wellKeyed_appendAt)

lemma nameStep_eq:
  "nameStep ToLower md categorize (name, fns) (m, seen) =
     (if ToLower name \<in> seen then (m, seen)
      else (fold (overloadStep md categorize (ToLower name)) fns m, insert (ToLower name) seen))"
  by (simp add: nameStep_def Let_def)

lemma fold_nameStep:
  "fold (nameStep ToLower md categorize) from (m, seen) =
     (fold (\<lambda>(name, fns). fold (overloadStep md categorize name) fns)
           (processed ToLower seen from) m,
      seen \<union> ToLower ` fst ` set from)"
proof (induction "from" arbitrary: m seen)
  case Nil
  then show ?case by simp
next
  case (Cons e "from")
  obtain name fns where e: "e = (name, fns)" by (cases e)
  show ?case
    unfolding e by (simp add: nameStep_eq Cons.IH insert_absorb)
qed

lemma collectFunctions_processed:
  "collectFunctions ToLower md from categorize =
     fold (\<lambda>(name, fns). fold (overloadStep md categorize name) fns)
          (processed ToLower {} from) []"
  by (simp add: collectFunctions_def fold_nameStep)

lemma at_fold_entries:
  "at (fold (\<lambda>(name, fns). fold (overloadStep md categorize name) fns) es m) cat
     = at m cat @ concat (map (\<lambda>(name, fns). rowsFor md categorize name fns cat) es)"
proof (induction es arbitrary: m)
  case Nil
  then show ?case by simp
next
  case (Cons e es)
  obtain name fns where e: "e = (name, fns)" by (cases e)
  show ?case unfolding e by (simp add: Cons.IH at_fold_overloadStep)
qed

lemma wellKeyed_fold_entries:
  "wellKeyed m \<Longrightarrow>
     wellKeyed (fold (\<lambda>(name, fns). fold (overloadStep md categorize name) fns) es m)"
proof (induction es arbitrary: m)
  case Nil
  then show ?case by simp
next
  case (Cons e es)
  obtain name fns where e: "e = (name, fns)" by (cases e)
  show ?case unfolding e using Cons.prems by (simp add: Cons.IH wellKeyed_fold_overloadStep)
qed

lemma at_collectFunctions:
  "at (collectFunctions ToLower md from categorize) cat =
     concat (map (\<lambda>(name, fns). rowsFor md categorize name fns cat) (processed ToLower {} from))"
  by (simp add: collectFunctions_processed at_fold_entries)

lemma wellKeyed_collectFunctions: "wellKeyed (collectFunctions ToLower md from categorize)"
  by (simp add: collectFunctions_processed wellKeyed_fold_entries wellKeyed_Nil)

lemma keys_processed:
  "fst ` set (processed ToLower seen from) = ToLower ` fst ` set from - seen"
proof (induction "from" arbitrary: seen)
  case Nil
  then show ?case by simp
next
  case (Cons e "from")
  obtain name fns where e: "e = (name, fns)" by (cases e)
  show ?case unfolding e by (auto simp: Cons.IH)
qed

lemma distinct_processed: "distinct (map fst (processed ToLower seen from))"
proof (induction "from" arbitrary: seen)
  case Nil
  then show ?case by simp
next
  case (Cons e "from")
  obtain name fns where e: "e = (name, fns)" by (cases e)
  show ?case unfolding e by (simp add: Cons.IH keys_processed)
qed

lemma aliasesAgree_Cons: "aliasesAgree ToLower (e # from) \<Longrightarrow> aliasesAgree ToLower from"
  unfolding aliasesAgree_def by (meson list.set_intros(2))

lemma aliasesAgree_head:
  "aliasesAgree ToLower ((name, fns) # from) \<Longrightarrow> (name', fns') \<in> set from
     \<Longrightarrow> ToLower name' = ToLower name \<Longrightarrow> fns' = fns"
  unfolding aliasesAgree_def by fastforce

lemma set_processed:
  "aliasesAgree ToLower from \<Longrightarrow>
     set (processed ToLower seen from)
       = (\<lambda>(name, fns). (ToLower name, fns)) ` {e \<in> set from. ToLower (fst e) \<notin> seen}"
proof (induction "from" arbitrary: seen)
  case Nil
  then show ?case by simp
next
  case (Cons e "from")
  obtain name fns where e: "e = (name, fns)" by (cases e)
  have agree: "aliasesAgree ToLower from" using Cons.prems by (rule aliasesAgree_Cons)
  have same: "(ToLower name', fns') = (ToLower name, fns)"
    if "(name', fns') \<in> set from" "ToLower name' = ToLower name" for name' fns'
    using aliasesAgree_head[OF Cons.prems[unfolded e] that] that(2) by simp
  show ?case
  proof (cases "ToLower name \<in> seen")
    case True
    then show ?thesis unfolding e by (auto simp: Cons.IH[OF agree])
  next
    case False
    have "(\<lambda>(name, fns). (ToLower name, fns)) ` {e \<in> set from. ToLower (fst e) \<notin> seen}
          \<subseteq> insert (ToLower name, fns) ((\<lambda>(name, fns). (ToLower name, fns)) `
               {e \<in> set from. ToLower (fst e) \<notin> insert (ToLower name) seen})"
    proof
      fix p assume "p \<in> (\<lambda>(name, fns). (ToLower name, fns)) ` {e \<in> set from. ToLower (fst e) \<notin> seen}"
      then obtain name' fns' where p: "p = (ToLower name', fns')"
        and mem: "(name', fns') \<in> set from" and ns: "ToLower name' \<notin> seen"
        by auto
      show "p \<in> insert (ToLower name, fns) ((\<lambda>(name, fns). (ToLower name, fns)) `
               {e \<in> set from. ToLower (fst e) \<notin> insert (ToLower name) seen})"
      proof (cases "ToLower name' = ToLower name")
        case True
        then show ?thesis using same[OF mem True] p by simp
      next
        case False
        then have "(name', fns') \<in> {e \<in> set from. ToLower (fst e) \<notin> insert (ToLower name) seen}"
          using mem ns by simp
        then show ?thesis unfolding p by (metis (mono_tags, lifting) case_prod_conv image_eqI insertI2)
      qed
    qed
    moreover have "(\<lambda>(name, fns). (ToLower name, fns)) `
               {e \<in> set from. ToLower (fst e) \<notin> insert (ToLower name) seen}
          \<subseteq> (\<lambda>(name, fns). (ToLower name, fns)) ` {e \<in> set from. ToLower (fst e) \<notin> seen}"
      by (intro image_mono) auto
    ultimately show ?thesis
      unfolding e using False by (auto simp: Cons.IH[OF agree])
  qed
qed

lemma mset_processed_perm:
  assumes "set from1 = set from2" and "aliasesAgree ToLower from1"
  shows "mset (processed ToLower {} from1) = mset (processed ToLower {} from2)"
proof -
  have agree2: "aliasesAgree ToLower from2"
    using assms(2) unfolding aliasesAgree_def assms(1) .
  have d1: "distinct (processed ToLower {} from1)" and d2: "distinct (processed ToLower {} from2)"
    using distinct_processed distinct_map by blast+
  have "set (processed ToLower {} from1) = set (processed ToLower {} from2)"
    unfolding set_processed[OF assms(2)] set_processed[OF agree2] assms(1) ..
  then show ?thesis
    using d1 d2 by (simp add: set_eq_iff_mset_eq_distinct)
qed

lemma mset_concat_map:
  "mset (concat (map g es)) = (\<Sum>e\<in>#mset es. mset (g e))"
  by (induction es) simp_all

lemma mset_collectFunctions_perm:
  assumes "set from1 = set from2" and "aliasesAgree ToLower from1"
  shows "mset (at (collectFunctions ToLower md from1 categorize) cat)
         = mset (at (collectFunctions ToLower md from2 categorize) cat)"
  unfolding at_collectFunctions mset_concat_map mset_processed_perm[OF assms] ..

lemma categoryTable_cong:
  "at m1 cat = at m2 cat \<Longrightarrow> categoryTable categorize m1 cat = categoryTable categorize m2 cat"
  by (simp add: categoryTable_def)

lemma generateFunctions_collected:
  "generateFunctions ToLower md from categorize =
     concat (map (categoryTable categorize
                    (map (\<lambda>(k, v). (k, sort v)) (collectFunctions ToLower md from categorize)))
                 (compatibilityLast (sort (map fst (collectFunctions ToLower md from categorize)))))"
  by (simp add: generateFunctions_def categoryOrder_def Let_def keys_map_values del: map_map)

lemma sort_mset_cong:
  fixes xs ys :: "'a::linorder list"
  shows "mset xs = mset ys \<Longrightarrow> sort xs = sort ys"
  by (metis mset_sort properties_for_sort sorted_sort)

lemma generateFunctions_rows_cong:
  assumes "\<And>cat. mset (at (collectFunctions ToLower md from1 categorize) cat)
                = mset (at (collectFunctions ToLower md from2 categorize) cat)"
  shows "generateFunctions ToLower md from1 categorize = generateFunctions ToLower md from2 categorize"
proof -
  let ?m1 = "collectFunctions ToLower md from1 categorize"
  let ?m2 = "collectFunctions ToLower md from2 categorize"
  have srt: "sort (at ?m1 cat) = sort (at ?m2 cat)" for cat
    by (rule sort_mset_cong[OF assms])
  have "at ?m1 cat = [] \<longleftrightarrow> at ?m2 cat = []" for cat
    using assms[of cat] by (metis mset_zero_iff)
  then have keys: "sort (map fst ?m1) = sort (map fst ?m2)"
    by (rule sorted_keys_cong[OF wellKeyed_collectFunctions wellKeyed_collectFunctions])
  have "categoryTable categorize (map (\<lambda>(k, v). (k, sort v)) ?m1) cat
          = categoryTable categorize (map (\<lambda>(k, v). (k, sort v)) ?m2) cat" for cat
    by (rule categoryTable_cong) (simp add: at_map_values srt)
  then have "categoryTable categorize (map (\<lambda>(k, v). (k, sort v)) ?m1)
          = categoryTable categorize (map (\<lambda>(k, v). (k, sort v)) ?m2)"
    by (rule ext)
  then show ?thesis
    unfolding generateFunctions_collected keys by simp
qed

lemma generateFunctions_perm:
  assumes "set from1 = set from2" and "aliasesAgree ToLower from1"
  shows "generateFunctions ToLower md from1 categorize = generateFunctions ToLower md from2 categorize"
  by (rule generateFunctions_rows_cong) (rule mset_collectFunctions_perm[OF assms])

lemma processed_append:
  "processed ToLower seen (xs @ ys) =
     processed ToLower seen xs @ processed ToLower (seen \<union> ToLower ` fst ` set xs) ys"
proof (induction xs arbitrary: seen)
  case Nil
  then show ?case by simp
next
  case (Cons e xs)
  obtain name fns where e: "e = (name, fns)" by (cases e)
  show ?case unfolding e by (simp add: Cons.IH insert_absorb)
qed

lemma processed_skip:
  assumes "ToLower name \<in> ToLower ` fst ` set pre"
  shows "processed ToLower {} (pre @ (name, fns) # post) = processed ToLower {} (pre @ post)"
  using assms by (simp add: processed_append)

lemma generateFunctions_processed_cong:
  assumes "processed ToLower {} from1 = processed ToLower {} from2"
  shows "generateFunctions ToLower md from1 categorize = generateFunctions ToLower md from2 categorize"
  by (simp add: generateFunctions_def collectFunctions_processed assms)

lemma fold_overloadStep_filter:
  assumes "\<And>fn. \<not> P fn \<Longrightarrow> \<not> emitted categorize fn"
  shows "fold (overloadStep md categorize name) (filter P fns) m
         = fold (overloadStep md categorize name) fns m"
proof (induction fns arbitrary: m)
  case Nil
  then show ?case by simp
next
  case (Cons fn fns)
  show ?case
  proof (cases "P fn")
    case True
    then show ?thesis by (simp add: Cons.IH)
  next
    case False
    then have "overloadStep md categorize name fn m = m"
      using assms by (simp add: overloadStep_eq)
    then show ?thesis using False by (simp add: Cons.IH)
  qed
qed

lemma nameStep_filter:
  assumes "\<And>fn. \<not> P fn \<Longrightarrow> \<not> emitted categorize fn"
  shows "nameStep ToLower md categorize (name, filter P fns) st
         = nameStep ToLower md categorize (name, fns) st"
  by (cases st) (simp add: nameStep_eq fold_overloadStep_filter[of P, OF assms])

lemma collectFunctions_filter:
  assumes "\<And>fn. \<not> P fn \<Longrightarrow> \<not> emitted categorize fn"
  shows "collectFunctions ToLower md (map (\<lambda>(name, fns). (name, filter P fns)) from) categorize
         = collectFunctions ToLower md from categorize"
proof -
  have "nameStep ToLower md categorize \<circ> (\<lambda>(name, fns). (name, filter P fns))
        = nameStep ToLower md categorize"
    by (rule ext) (simp add: case_prod_beta nameStep_filter[of P, OF assms] fun_eq_iff)
  then show ?thesis
    by (simp add: collectFunctions_def fold_map)
qed

lemma generateFunctions_filter:
  assumes "\<And>fn. \<not> P fn \<Longrightarrow> \<not> emitted categorize fn"
  shows "generateFunctions ToLower md (map (\<lambda>(name, fns). (name, filter P fns)) from) categorize
         = generateFunctions ToLower md from categorize"
  by (simp add: generateFunctions_def collectFunctions_filter[of P, OF assms])

lemma row_collected:
  assumes "ToLower name \<notin> ToLower ` fst ` set pre"
    and "fn \<in> set fns" and "emitted categorize fn"
  shows "functionRow md (ToLower name) fn
         \<in> set (at (collectFunctions ToLower md (pre @ (name, fns) # post) categorize)
                   (functionCategory categorize fn))"
proof -
  have "(ToLower name, fns) \<in> set (processed ToLower {} (pre @ (name, fns) # post))"
    using assms(1) by (simp add: processed_append)
  moreover have "functionRow md (ToLower name) fn
      \<in> set (rowsFor md categorize (ToLower name) fns (functionCategory categorize fn))"
    using assms(2,3) by (simp add: rowsFor_def)
  ultimately show ?thesis
    unfolding at_collectFunctions by force
qed

lemma at_uncategorized:
  "cat \<noteq> '''' \<Longrightarrow> at (collectFunctions ToLower md from False) cat = []"
  by (simp add: at_collectFunctions rowsFor_def functionCategory_def)

lemma singleton_list: "distinct xs \<Longrightarrow> set xs = {a} \<Longrightarrow> xs = [a]"
  by (cases xs) (auto simp: insert_eq_iff dest: subset_singletonD)

lemma generateFunctions_uncategorized:
  assumes "at (collectFunctions ToLower md from False) '''' \<noteq> []"
  shows "generateFunctions ToLower md from False =
           categoryTable False [('''', sort (at (collectFunctions ToLower md from False) ''''))] ''''"
proof -
  let ?m = "collectFunctions ToLower md from False"
  have "{k. at ?m k \<noteq> []} = {''''}"
    using assms at_uncategorized[of _ ToLower md "from"] by blast
  then have "set (map fst ?m) = {''''}"
    using wellKeyed_keys[OF wellKeyed_collectFunctions, of ToLower md "from" False] by simp
  moreover have "distinct (map fst ?m)"
    using wellKeyed_collectFunctions[of ToLower md "from" False] by (simp add: wellKeyed_def)
  ultimately have keys: "map fst ?m = ['''']" by (rule singleton_list[rotated])
  have "categoryTable False (map (\<lambda>(k, v). (k, sort v)) ?m) ''''
        = categoryTable False [('''', sort (at ?m ''''))] ''''"
    by (rule categoryTable_cong) (simp add: at_map_values)
  then show ?thesis
    unfolding generateFunctions_collected keys by simp
qed

text \<open>
  A row that the loop has collected is part of the bytes of the output.
\<close>

lemma HasPrefix_iff: "HasPrefix s p \<longleftrightarrow> (\<exists>b. s = p @ b)"
proof
  assume "HasPrefix s p"
  then have "s = p @ drop (length p) s"
    unfolding HasPrefix_def by (metis append_take_drop_id)
  then show "\<exists>b. s = p @ b" ..
next
  assume "\<exists>b. s = p @ b"
  then show "HasPrefix s p" unfolding HasPrefix_def by auto
qed

lemma Contains_iff: "Contains s substr \<longleftrightarrow> (\<exists>a b. s = a @ substr @ b)"
proof (induction s)
  case Nil
  then show ?case by simp
next
  case (Cons c cs)
  show ?case
  proof
    assume "Contains (c # cs) substr"
    then consider "HasPrefix (c # cs) substr" | "Contains cs substr" by auto
    then show "\<exists>a b. c # cs = a @ substr @ b"
    proof cases
      case 1
      then obtain b where "c # cs = substr @ b" unfolding HasPrefix_iff ..
      then have "c # cs = [] @ substr @ b" by simp
      then show ?thesis by blast
    next
      case 2
      then obtain a b where "cs = a @ substr @ b" unfolding Cons.IH by blast
      then have "c # cs = (c # a) @ substr @ b" by simp
      then show ?thesis by blast
    qed
  next
    assume "\<exists>a b. c # cs = a @ substr @ b"
    then obtain a b where ab: "c # cs = a @ substr @ b" by blast
    show "Contains (c # cs) substr"
    proof (cases a)
      case Nil
      then have "HasPrefix (c # cs) substr" using ab unfolding HasPrefix_iff by auto
      then show ?thesis by simp
    next
      case (Cons a' as)
      then have "cs = as @ substr @ b" using ab by simp
      then have "Contains cs substr" unfolding Cons.IH by blast
      then show ?thesis by simp
    qed
  qed
qed

lemma Join_contains: "x \<in> set xs \<Longrightarrow> \<exists>a b. Join xs sep = a @ x @ b"
proof (induction xs sep rule: Join.induct)
  case (1 sep)
  then show ?case by simp
next
  case (2 y sep)
  then have "Join [y] sep = [] @ x @ []" by simp
  then show ?case by blast
next
  case (3 y z zs sep)
  show ?case
  proof (cases "x = y")
    case True
    then have "Join (y # z # zs) sep = [] @ x @ (sep @ Join (z # zs) sep)" by simp
    then show ?thesis by blast
  next
    case False
    then have "x \<in> set (z # zs)" using 3 by simp
    then obtain a b where "Join (z # zs) sep = a @ x @ b" using 3 by blast
    then have "Join (y # z # zs) sep = (y @ sep @ a) @ x @ b" by simp
    then show ?thesis by blast
  qed
qed

lemma concat_map_contains: "x \<in> set xs \<Longrightarrow> \<exists>a b. concat (map f xs) = a @ f x @ b"
proof -
  assume "x \<in> set xs"
  then obtain ys zs where "xs = ys @ x # zs" by (meson split_list)
  then have "concat (map f xs) = concat (map f ys) @ f x @ concat (map f zs)" by simp
  then show ?thesis by blast
qed

lemma set_compatibilityLast: "set (compatibilityLast cats) = set cats"
  by (induction cats) auto

lemma set_categoryOrder: "set (categoryOrder functions) = fst ` set functions"
  by (simp add: categoryOrder_def set_compatibilityLast)

lemma contains_prepend: "\<exists>a b. x = a @ r @ b \<Longrightarrow> \<exists>a b. p @ x = a @ r @ b"
proof -
  assume "\<exists>a b. x = a @ r @ b"
  then obtain a b where "x = a @ r @ b" by auto
  then have "p @ x = (p @ a) @ r @ b" by simp
  then show ?thesis by (intro exI)
qed

lemma contains_append: "\<exists>a b. x = a @ r @ b \<Longrightarrow> \<exists>a b. x @ q = a @ r @ b"
proof -
  assume "\<exists>a b. x = a @ r @ b"
  then obtain a b where "x = a @ r @ b" by auto
  then have "x @ q = a @ r @ (b @ q)" by simp
  then show ?thesis by (intro exI)
qed

lemma categoryTable_contains:
  assumes "row \<in> set (at functions cat)"
  shows "\<exists>a b. categoryTable categorize functions cat = a @ row @ b"
  unfolding categoryTable_def
  by (intro contains_prepend contains_append Join_contains assms)

lemma row_in_output:
  assumes "row \<in> set (at (collectFunctions ToLower md from categorize) cat)"
  shows "\<exists>a b. generateFunctions ToLower md from categorize = a @ row @ b"
proof -
  define m where "m = collectFunctions ToLower md from categorize"
  define m' where "m' = map (\<lambda>(k, v). (k, sort v)) m"
  have wk: "wellKeyed m" unfolding m_def by (rule wellKeyed_collectFunctions)
  have at': "at m' cat = sort (at m cat)"
    unfolding m'_def by (rule at_map_values) simp
  have r: "row \<in> set (at m' cat)"
    unfolding at' using assms m_def by simp
  have "at m cat \<noteq> []" using assms unfolding m_def by auto
  then have "cat \<in> set (map fst m)"
    unfolding wellKeyed_keys[OF wk] by simp
  moreover have "map fst m' = map fst m"
    unfolding m'_def by (rule keys_map_values)
  ultimately have "cat \<in> set (map fst m')" by simp
  then have mem: "cat \<in> set (categoryOrder m')"
    unfolding set_categoryOrder by simp
  from concat_map_contains[OF mem, of "categoryTable categorize m'"]
  obtain a b where
    o: "concat (map (categoryTable categorize m') (categoryOrder m'))
          = a @ categoryTable categorize m' cat @ b"
    by auto
  from categoryTable_contains[OF r, of categorize]
  obtain c d where t: "categoryTable categorize m' cat = c @ row @ d"
    by auto
  have "generateFunctions ToLower md from categorize
          = concat (map (categoryTable categorize m') (categoryOrder m'))"
    unfolding m'_def m_def by (simp add: generateFunctions_def Let_def)
  then have "generateFunctions ToLower md from categorize = (a @ c) @ row @ (d @ b)"
    unfolding o t by simp
  then show ?thesis by (intro exI)
qed

lemma first_row_in_output:
  assumes "ToLower name \<notin> ToLower ` fst ` set pre"
    and "fn \<in> set fns" and "emitted categorize fn"
  shows "\<exists>a b. generateFunctions ToLower md (pre @ (name, fns) # post) categorize
           = a @ functionRow md (ToLower name) fn @ b"
  by (rule row_in_output) (rule row_collected[OF assms])

text \<open>
  C2. When two keys of the catalog have the same lower-case form, the output is what
  it would be without the key that the iteration meets second: none of its overloads
  adds a row. The overloads of a key that is the first of its lower-case form add
  their rows, each in its category, unless one of the two tests skips them, and
  these rows are part of the bytes of the output.
\<close>

theorem alias_dedup:
  assumes "ToLower k1 = ToLower k2"
  shows "generateFunctions ToLower md (pre @ (k1, fns1) # mid @ (k2, fns2) # post) categorize
           = generateFunctions ToLower md (pre @ (k1, fns1) # mid @ post) categorize
         \<and> (ToLower k1 \<notin> ToLower ` fst ` set pre \<longrightarrow>
              (\<forall>fn\<in>set fns1. emitted categorize fn \<longrightarrow>
                 functionRow md (ToLower k1) fn
                   \<in> set (at (collectFunctions ToLower md
                                (pre @ (k1, fns1) # mid @ (k2, fns2) # post) categorize)
                             (functionCategory categorize fn))
                 \<and> (\<exists>a b. generateFunctions ToLower md
                              (pre @ (k1, fns1) # mid @ (k2, fns2) # post) categorize
                            = a @ functionRow md (ToLower k1) fn @ b)))"
proof -
  have "ToLower k2 \<in> ToLower ` fst ` set (pre @ (k1, fns1) # mid)"
    using assms by simp
  then have "processed ToLower {} ((pre @ (k1, fns1) # mid) @ (k2, fns2) # post)
             = processed ToLower {} ((pre @ (k1, fns1) # mid) @ post)"
    by (rule processed_skip)
  then have "generateFunctions ToLower md ((pre @ (k1, fns1) # mid) @ (k2, fns2) # post) categorize
             = generateFunctions ToLower md ((pre @ (k1, fns1) # mid) @ post) categorize"
    by (rule generateFunctions_processed_cong)
  then have skip: "generateFunctions ToLower md (pre @ (k1, fns1) # mid @ (k2, fns2) # post) categorize
           = generateFunctions ToLower md (pre @ (k1, fns1) # mid @ post) categorize"
    by simp
  have rows: "ToLower k1 \<notin> ToLower ` fst ` set pre \<longrightarrow>
              (\<forall>fn\<in>set fns1. emitted categorize fn \<longrightarrow>
                 functionRow md (ToLower k1) fn
                   \<in> set (at (collectFunctions ToLower md
                                (pre @ (k1, fns1) # mid @ (k2, fns2) # post) categorize)
                             (functionCategory categorize fn))
                 \<and> (\<exists>a b. generateFunctions ToLower md
                              (pre @ (k1, fns1) # mid @ (k2, fns2) # post) categorize
                            = a @ functionRow md (ToLower k1) fn @ b))"
  proof (intro impI ballI conjI)
    fix fn
    assume f: "ToLower k1 \<notin> ToLower ` fst ` set pre" and m: "fn \<in> set fns1"
      and e: "emitted categorize fn"
    show "functionRow md (ToLower k1) fn
            \<in> set (at (collectFunctions ToLower md
                         (pre @ (k1, fns1) # mid @ (k2, fns2) # post) categorize)
                      (functionCategory categorize fn))"
      by (rule row_collected[OF f m e])
    show "\<exists>a b. generateFunctions ToLower md
                  (pre @ (k1, fns1) # mid @ (k2, fns2) # post) categorize
                = a @ functionRow md (ToLower k1) fn @ b"
      by (rule first_row_in_output[OF f m e])
  qed
  show ?thesis using skip rows by (rule conjI)
qed

theorem alias_dedup_witness:
  "ToLowerASCII ''Foo'' = ToLowerASCII ''foo''
   \<and> generateFunctions ToLowerASCII id
        [(''Foo'', [plainBuiltin ''int'' ''int'']), (''foo'', [plainBuiltin ''string'' ''string''])] True
     = generateFunctions ToLowerASCII id [(''Foo'', [plainBuiltin ''int'' ''int''])] True
   \<and> functionRow id ''foo'' (plainBuiltin ''int'' ''int'')
       \<in> set (at (collectFunctions ToLowerASCII id
                [(''Foo'', [plainBuiltin ''int'' ''int'']), (''foo'', [plainBuiltin ''string'' ''string''])]
                True) ''int'')
   \<and> Contains (generateFunctions ToLowerASCII id
        [(''Foo'', [plainBuiltin ''int'' ''int'']), (''foo'', [plainBuiltin ''string'' ''string''])] True)
        (functionRow id ''foo'' (plainBuiltin ''int'' ''int''))
   \<and> \<not> Contains (generateFunctions ToLowerASCII id
        [(''Foo'', [plainBuiltin ''int'' ''int'']), (''foo'', [plainBuiltin ''string'' ''string''])] True)
        (functionRow id ''foo'' (plainBuiltin ''string'' ''string''))"
proof -
  let ?from = "[(''Foo'', [plainBuiltin ''int'' ''int'']), (''foo'', [plainBuiltin ''string'' ''string''])]"
  have l: "ToLowerASCII ''Foo'' = ToLowerASCII ''foo''" by code_simp
  have l': "ToLowerASCII ''Foo'' = ''foo''" by code_simp
  have f: "ToLowerASCII ''Foo'' \<notin> ToLowerASCII ` fst ` set []" by simp
  have m: "plainBuiltin ''int'' ''int'' \<in> set [plainBuiltin ''int'' ''int'']" by simp
  have e: "emitted True (plainBuiltin ''int'' ''int'')" by code_simp
  have c: "functionCategory True (plainBuiltin ''int'' ''int'') = ''int''" by code_simp
  note t = alias_dedup[where ToLower = ToLowerASCII and ?k1.0 = "''Foo''" and ?k2.0 = "''foo''"
        and md = id and pre = "[]" and ?fns1.0 = "[plainBuiltin ''int'' ''int'']" and mid = "[]"
        and ?fns2.0 = "[plainBuiltin ''string'' ''string'']" and post = "[]"
        and categorize = True, OF l]
  have skip: "generateFunctions ToLowerASCII id ?from True
     = generateFunctions ToLowerASCII id [(''Foo'', [plainBuiltin ''int'' ''int''])] True"
    using t[THEN conjunct1] by simp
  have rows: "functionRow id (ToLowerASCII ''Foo'') (plainBuiltin ''int'' ''int'')
       \<in> set (at (collectFunctions ToLowerASCII id ?from True)
                  (functionCategory True (plainBuiltin ''int'' ''int'')))
     \<and> (\<exists>a b. generateFunctions ToLowerASCII id ?from True
           = a @ functionRow id (ToLowerASCII ''Foo'') (plainBuiltin ''int'' ''int'') @ b)"
    using t[THEN conjunct2, THEN mp, OF f, THEN bspec, OF m, THEN mp, OF e] by simp
  have row: "functionRow id ''foo'' (plainBuiltin ''int'' ''int'')
       \<in> set (at (collectFunctions ToLowerASCII id ?from True) ''int'')"
    using rows[THEN conjunct1] unfolding l' c .
  have "\<exists>a b. generateFunctions ToLowerASCII id ?from True
           = a @ functionRow id ''foo'' (plainBuiltin ''int'' ''int'') @ b"
    using rows[THEN conjunct2] unfolding l' .
  then have inc: "Contains (generateFunctions ToLowerASCII id ?from True)
        (functionRow id ''foo'' (plainBuiltin ''int'' ''int''))"
    unfolding Contains_iff .
  have exc: "\<not> Contains (generateFunctions ToLowerASCII id ?from True)
        (functionRow id ''foo'' (plainBuiltin ''string'' ''string''))"
    by code_simp
  show ?thesis using l skip row inc exc by (intro conjI)
qed

text \<open>
  C8. An overload whose \<^verbatim>\<open>Info\<close> is the text \<^verbatim>\<open>notUsableInfo\<close> adds no row, with or
  without categories: the output is that of the catalog without these overloads.
\<close>

theorem not_usable_skipped:
  "generateFunctions ToLower md from categorize =
     generateFunctions ToLower md
       (map (\<lambda>(name, fns). (name, filter (\<lambda>fn. Info fn \<noteq> notUsableInfo) fns)) from)
       categorize"
  by (rule generateFunctions_filter[symmetric]) (simp add: emitted_def)

theorem not_usable_skipped_witness:
  "generateFunctions ToLowerASCII id
     [(''f'', [(plainBuiltin '''' ''int'')\<lparr>Info := notUsableInfo\<rparr>, plainBuiltin '''' ''int''])] True
   = generateFunctions ToLowerASCII id [(''f'', [plainBuiltin '''' ''int''])] True"
proof -
  have "Info (plainBuiltin '''' ''int'') \<noteq> notUsableInfo" by code_simp
  then show ?thesis
    using not_usable_skipped[of ToLowerASCII id
      "[(''f'', [(plainBuiltin '''' ''int'')\<lparr>Info := notUsableInfo\<rparr>, plainBuiltin '''' ''int''])]" True]
    by simp
qed

text \<open>
  C9, as stated: every window function whose \<^verbatim>\<open>Info\<close> is not \<^verbatim>\<open>notUsableInfo\<close> is part
  of the output without categories. It is not when its key is met after another key
  of the same lower-case form: in the catalog with \<^verbatim>\<open>Foo\<close> first and the window
  function under \<^verbatim>\<open>foo\<close>, the key \<^verbatim>\<open>foo\<close> is skipped with all its overloads, and the
  output is that of the catalog with \<^verbatim>\<open>Foo\<close> alone.
\<close>

theorem window_functions_counterexample:
  "WindowFunc ((plainBuiltin ''string'' ''string'')\<lparr>WindowFunc := Some ()\<rparr>) \<noteq> None
   \<and> Info ((plainBuiltin ''string'' ''string'')\<lparr>WindowFunc := Some ()\<rparr>) \<noteq> notUsableInfo
   \<and> \<not> Contains
        (generateFunctions ToLowerASCII id
           [(''Foo'', [plainBuiltin ''int'' ''int'']),
            (''foo'', [(plainBuiltin ''string'' ''string'')\<lparr>WindowFunc := Some ()\<rparr>])] False)
        (functionRow id ''foo'' ((plainBuiltin ''string'' ''string'')\<lparr>WindowFunc := Some ()\<rparr>))
   \<and> generateFunctions ToLowerASCII id
        [(''Foo'', [plainBuiltin ''int'' ''int'']),
         (''foo'', [(plainBuiltin ''string'' ''string'')\<lparr>WindowFunc := Some ()\<rparr>])] False
     = generateFunctions ToLowerASCII id [(''Foo'', [plainBuiltin ''int'' ''int''])] False"
  by code_simp

text \<open>
  C9, amended: with categories, no window function is part of the output: the output
  is that of the catalog without its window functions. Without categories, the row
  of a window function whose \<^verbatim>\<open>Info\<close> is not \<^verbatim>\<open>notUsableInfo\<close>, under a key that is the
  first of its lower-case form in the iteration, is part of the bytes of the output:
  it is one of the sorted rows of the one table that is the output.
\<close>

theorem window_functions:
  assumes "WindowFunc fn \<noteq> None" and "Info fn \<noteq> notUsableInfo"
    and "fn \<in> set fns" and "ToLower name \<notin> ToLower ` fst ` set pre"
    and "from = pre @ (name, fns) # post"
  shows "generateFunctions ToLower md from True =
           generateFunctions ToLower md
             (map (\<lambda>(name, fns). (name, filter (\<lambda>fn. WindowFunc fn = None) fns)) from) True
         \<and> (\<exists>a b. generateFunctions ToLower md from False
                    = a @ functionRow md (ToLower name) fn @ b)
         \<and> functionRow md (ToLower name) fn
             \<in> set (sort (at (collectFunctions ToLower md from False) ''''))
         \<and> generateFunctions ToLower md from False =
             categoryTable False
               [('''', sort (at (collectFunctions ToLower md from False) ''''))] ''''"
proof -
  have ex: "generateFunctions ToLower md from True =
           generateFunctions ToLower md
             (map (\<lambda>(name, fns). (name, filter (\<lambda>fn. WindowFunc fn = None) fns)) from) True"
    by (rule generateFunctions_filter[symmetric]) (simp add: emitted_def)
  have em: "emitted False fn" using assms(2) by (simp add: emitted_def)
  have bytes: "\<exists>a b. generateFunctions ToLower md from False
                    = a @ functionRow md (ToLower name) fn @ b"
    unfolding assms(5) by (rule first_row_in_output[OF assms(4,3) em])
  have "functionRow md (ToLower name) fn
             \<in> set (at (collectFunctions ToLower md from False) (functionCategory False fn))"
    unfolding assms(5) by (rule row_collected[OF assms(4,3) em])
  then have row: "functionRow md (ToLower name) fn
             \<in> set (at (collectFunctions ToLower md from False) '''')"
    by (simp add: functionCategory_def)
  then have "at (collectFunctions ToLower md from False) '''' \<noteq> []" by auto
  then have out: "generateFunctions ToLower md from False =
             categoryTable False
               [('''', sort (at (collectFunctions ToLower md from False) ''''))] ''''"
    by (rule generateFunctions_uncategorized)
  have row': "functionRow md (ToLower name) fn
             \<in> set (sort (at (collectFunctions ToLower md from False) ''''))"
    using row by simp
  show ?thesis using ex bytes row' out by (intro conjI)
qed

theorem window_functions_witness:
  "WindowFunc ((plainBuiltin '''' ''int'')\<lparr>WindowFunc := Some ()\<rparr>) \<noteq> None
   \<and> Info ((plainBuiltin '''' ''int'')\<lparr>WindowFunc := Some ()\<rparr>) \<noteq> notUsableInfo
   \<and> generateFunctions ToLowerASCII id
        [(''rank'', [(plainBuiltin '''' ''int'')\<lparr>WindowFunc := Some ()\<rparr>])] True = ''''
   \<and> Contains
        (generateFunctions ToLowerASCII id
           [(''rank'', [(plainBuiltin '''' ''int'')\<lparr>WindowFunc := Some ()\<rparr>])] False)
        (functionRow id ''rank'' ((plainBuiltin '''' ''int'')\<lparr>WindowFunc := Some ()\<rparr>))"
proof -
  let ?w = "(plainBuiltin '''' ''int'')\<lparr>WindowFunc := Some ()\<rparr>"
  have 1: "WindowFunc ?w \<noteq> None" by simp
  have 2: "Info ?w \<noteq> notUsableInfo" by code_simp
  have 3: "?w \<in> set [?w]" by simp
  have 4: "ToLowerASCII ''rank'' \<notin> ToLowerASCII ` fst ` set []" by simp
  have 5: "[(''rank'', [?w])] = [] @ (''rank'', [?w]) # []" by simp
  have l: "ToLowerASCII ''rank'' = ''rank''" by code_simp
  have e: "generateFunctions ToLowerASCII id
             (map (\<lambda>(name, fns). (name, filter (\<lambda>fn. WindowFunc fn = None) fns))
                [(''rank'', [?w])]) True = ''''"
    by code_simp
  note t = window_functions[OF 1 2 3 4 5, of id]
  have ex: "generateFunctions ToLowerASCII id [(''rank'', [?w])] True = ''''"
    using t[THEN conjunct1] unfolding e .
  have "\<exists>a b. generateFunctions ToLowerASCII id [(''rank'', [?w])] False
          = a @ functionRow id ''rank'' ?w @ b"
    using t[THEN conjunct2, THEN conjunct1] unfolding l .
  then have inc: "Contains (generateFunctions ToLowerASCII id [(''rank'', [?w])] False)
        (functionRow id ''rank'' ?w)"
    unfolding Contains_iff .
  show ?thesis using 1 2 ex inc by (intro conjI)
qed

section \<open>The order of the categories\<close>

lemma compatibilityLast_filter:
  "distinct cats \<Longrightarrow>
     compatibilityLast cats =
       filter (\<lambda>c. c \<noteq> ''Compatibility'') cats
       @ (if ''Compatibility'' \<in> set cats then [''Compatibility''] else [])"
proof (induction cats)
  case Nil
  then show ?case by simp
next
  case (Cons cat cats)
  show ?case
  proof (cases "cat = ''Compatibility''")
    case True
    then have "filter (\<lambda>c. c \<noteq> ''Compatibility'') cats = cats"
      using Cons.prems by (auto simp: filter_id_conv)
    then show ?thesis using True by simp
  next
    case False
    then show ?thesis using Cons by simp
  qed
qed

lemma categoryOrder_sorted:
  assumes "distinct (map fst functions)"
  shows "categoryOrder functions =
           sort (filter (\<lambda>c. c \<noteq> ''Compatibility'') (map fst functions))
           @ (if ''Compatibility'' \<in> fst ` set functions then [''Compatibility''] else [])"
proof -
  have "distinct (sort (map fst functions))" using assms by simp
  then show ?thesis
    unfolding categoryOrder_def
    by (simp add: compatibilityLast_filter filter_sort)
qed

lemma sort_Alpha_Beta:
  assumes "distinct cats" and "set cats = {''Alpha'', ''Beta''}"
  shows "sort cats = [''Alpha'', ''Beta'']"
proof -
  have "sorted [''Alpha'', ''Beta'']" by simp
  moreover have "distinct [''Alpha'', ''Beta'']" by simp
  moreover have "set (sort cats) = set [''Alpha'', ''Beta'']" using assms(2) by simp
  moreover have "distinct (sort cats)" using assms(1) by simp
  ultimately show ?thesis
    using sorted_distinct_set_unique[of "sort cats" "[''Alpha'', ''Beta'']"] by simp
qed

lemma categoryOrder_example:
  assumes "distinct (map fst functions)"
    and "fst ` set functions = {''Alpha'', ''Compatibility'', ''Beta''}"
  shows "categoryOrder functions = [''Alpha'', ''Beta'', ''Compatibility'']"
proof -
  let ?cats = "filter (\<lambda>c. c \<noteq> ''Compatibility'') (map fst functions)"
  have "set ?cats = {''Alpha'', ''Beta''}"
    using assms(2) by auto
  moreover have "distinct ?cats" using assms(1) by simp
  ultimately have "sort ?cats = [''Alpha'', ''Beta'']"
    by (rule sort_Alpha_Beta[rotated])
  then show ?thesis
    using assms(2) by (simp add: categoryOrder_sorted[OF assms(1)])
qed

text \<open>
  C3. The output is the tables of the categories in the order \<open>categoryOrder\<close>:
  the order of their names, except that
  \<^verbatim>\<open>Compatibility\<close>, when it is one of them, is written last; the categories
  \<^verbatim>\<open>Alpha\<close>, \<^verbatim>\<open>Compatibility\<close> and \<^verbatim>\<open>Beta\<close> are written as \<^verbatim>\<open>Alpha\<close>, \<^verbatim>\<open>Beta\<close>,
  \<^verbatim>\<open>Compatibility\<close>.
\<close>

theorem category_order:
  "generateFunctions ToLower md from categorize
     = concat (map (categoryTable categorize
                      (map (\<lambda>(k, v). (k, sort v)) (collectFunctions ToLower md from categorize)))
                   (categoryOrder
                      (map (\<lambda>(k, v). (k, sort v)) (collectFunctions ToLower md from categorize))))
   \<and> categoryOrder (map (\<lambda>(k, v). (k, sort v)) (collectFunctions ToLower md from categorize))
     = sort (filter (\<lambda>c. c \<noteq> ''Compatibility'')
               (map fst (collectFunctions ToLower md from categorize)))
       @ (if ''Compatibility'' \<in> fst ` set (collectFunctions ToLower md from categorize)
          then [''Compatibility''] else [])
   \<and> (fst ` set (collectFunctions ToLower md from categorize)
          = {''Alpha'', ''Compatibility'', ''Beta''} \<longrightarrow>
        categoryOrder (map (\<lambda>(k, v). (k, sort v)) (collectFunctions ToLower md from categorize))
          = [''Alpha'', ''Beta'', ''Compatibility''])"
proof -
  let ?m = "collectFunctions ToLower md from categorize"
  have d: "distinct (map fst ?m)"
    using wellKeyed_collectFunctions[of ToLower md "from" categorize] by (simp add: wellKeyed_def)
  have eq: "categoryOrder (map (\<lambda>(k, v). (k, sort v)) ?m) = categoryOrder ?m"
    by (simp add: categoryOrder_def keys_map_values del: map_map)
  have out: "generateFunctions ToLower md from categorize
     = concat (map (categoryTable categorize (map (\<lambda>(k, v). (k, sort v)) ?m))
                   (categoryOrder (map (\<lambda>(k, v). (k, sort v)) ?m)))"
    by (simp add: generateFunctions_def Let_def)
  show ?thesis
    unfolding eq out[unfolded eq] using categoryOrder_sorted[OF d] categoryOrder_example[OF d]
    by simp
qed

theorem category_order_witness:
  "fst ` set (collectFunctions ToLowerASCII id
      [(''a'', [(plainBuiltin '''' ''int'')\<lparr>Category := ''Alpha''\<rparr>]),
       (''c'', [(plainBuiltin '''' ''int'')\<lparr>Category := ''Compatibility''\<rparr>]),
       (''b'', [(plainBuiltin '''' ''int'')\<lparr>Category := ''Beta''\<rparr>])] True)
     = {''Alpha'', ''Compatibility'', ''Beta''}
   \<and> categoryOrder (map (\<lambda>(k, v). (k, sort v)) (collectFunctions ToLowerASCII id
      [(''a'', [(plainBuiltin '''' ''int'')\<lparr>Category := ''Alpha''\<rparr>]),
       (''c'', [(plainBuiltin '''' ''int'')\<lparr>Category := ''Compatibility''\<rparr>]),
       (''b'', [(plainBuiltin '''' ''int'')\<lparr>Category := ''Beta''\<rparr>])] True))
     = [''Alpha'', ''Beta'', ''Compatibility'']"
proof -
  let ?from = "[(''a'', [(plainBuiltin '''' ''int'')\<lparr>Category := ''Alpha''\<rparr>]),
       (''c'', [(plainBuiltin '''' ''int'')\<lparr>Category := ''Compatibility''\<rparr>]),
       (''b'', [(plainBuiltin '''' ''int'')\<lparr>Category := ''Beta''\<rparr>])]"
  have "map fst (collectFunctions ToLowerASCII id ?from True)
     = [''Alpha'', ''Compatibility'', ''Beta'']"
    by code_simp
  then have "set (map fst (collectFunctions ToLowerASCII id ?from True))
     = set [''Alpha'', ''Compatibility'', ''Beta'']"
    by (rule arg_cong)
  then have k: "fst ` set (collectFunctions ToLowerASCII id ?from True)
     = {''Alpha'', ''Compatibility'', ''Beta''}"
    by simp
  have o: "categoryOrder (map (\<lambda>(k, v). (k, sort v)) (collectFunctions ToLowerASCII id ?from True))
     = [''Alpha'', ''Beta'', ''Compatibility'']"
    by (rule category_order[of ToLowerASCII id ?from True, THEN conjunct2, THEN conjunct2,
          THEN mp, OF k])
  show ?thesis using k o by (rule conjI)
qed

section \<open>One function, from the catalog to the output\<close>

lemma linkArguments_string: \<open>linkArguments ''string'' = ''<a href="string.html">string</a>''\<close>
  by code_simp

text \<open>
  C10, as stated: the row of \<^verbatim>\<open>lower\<close> has the arrow character (in UTF-8 the bytes
  E2 86 92) between the arguments and the return type. The row with that character is
  not a row of the category \<^verbatim>\<open>string\<close>.
\<close>

theorem lower_example_counterexample:
  \<open>(''<tr><td><code>lower(<a href="string.html">string</a>) '' @ [CHR 0xE2, CHR 0x86, CHR 0x92]
      @ '' <a href="string.html">string</a></code></td><td></td></tr>'')
   \<notin> set (at (collectFunctions ToLowerASCII id
        [(''lower'', [\<lparr>Types = ''string'', FixedReturnType = ''string'', Category = '''',
                         WindowFunc = None, Info = ''''\<rparr>])] True) ''string'')\<close>
  by code_simp

text \<open>
  C10, amended: for the catalog of the one function \<^verbatim>\<open>lower\<close>, from \<^verbatim>\<open>string\<close> to
  \<^verbatim>\<open>string\<close>, with no category and no description, the one row is in the category
  \<^verbatim>\<open>string\<close>, and it has the entity \<^verbatim>\<open>&rarr;\<close> where the claim has the arrow
  character. The output is the heading and the table of that category.
\<close>

theorem lower_example:
  assumes "ToLower ''lower'' = ''lower''"
  shows
  \<open>collectFunctions ToLower md
        [(''lower'', [\<lparr>Types = ''string'', FixedReturnType = ''string'', Category = '''',
                         WindowFunc = None, Info = ''''\<rparr>])] True
     = [(''string'',
         [''<tr><td><code>lower(<a href="string.html">string</a>) &rarr; <a href="string.html">string</a></code></td><td></td></tr>''])]
   \<and> generateFunctions ToLower md
        [(''lower'', [\<lparr>Types = ''string'', FixedReturnType = ''string'', Category = '''',
                         WindowFunc = None, Info = ''''\<rparr>])] True
     = ''### string Functions\<newline>\<newline><table>\<newline><thead><tr><th>Function &rarr; Returns</th><th>Description</th></tr></thead>\<newline><tbody>\<newline><tr><td><code>lower(<a href="string.html">string</a>) &rarr; <a href="string.html">string</a></code></td><td></td></tr></tbody>\<newline></table>\<newline>\<newline>''\<close>
proof -
  have c: \<open>collectFunctions ToLower md
        [(''lower'', [\<lparr>Types = ''string'', FixedReturnType = ''string'', Category = '''',
                         WindowFunc = None, Info = ''''\<rparr>])] True
     = [(''string'',
         [''<tr><td><code>lower(<a href="string.html">string</a>) &rarr; <a href="string.html">string</a></code></td><td></td></tr>''])]\<close>
    by (simp add: collectFunctions_def nameStep_eq overloadStep_eq emitted_def
          functionCategory_def functionRow_def notUsableInfo_def linkArguments_string assms)
  show ?thesis
    unfolding generateFunctions_def c
    by (simp add: categoryOrder_def categoryTable_def)
qed

theorem lower_example_witness:
  \<open>ToLowerASCII ''lower'' = ''lower''
   \<and> at (collectFunctions ToLowerASCII id
        [(''lower'', [\<lparr>Types = ''string'', FixedReturnType = ''string'', Category = '''',
                         WindowFunc = None, Info = ''''\<rparr>])] True) ''string''
     = [''<tr><td><code>lower(<a href="string.html">string</a>) &rarr; <a href="string.html">string</a></code></td><td></td></tr>'']\<close>
proof -
  have l: "ToLowerASCII ''lower'' = ''lower''" by code_simp
  show ?thesis using lower_example[where ToLower = ToLowerASCII and md = id, OF l] l by simp
qed

section \<open>The output does not depend on the order of the iteration\<close>

text \<open>
  C1, as stated: two runs on the same catalog give the same bytes. Go visits the
  entries of a map in an order that changes from run to run, and of two keys with the
  same lower-case form the first one met wins: a catalog with \<^verbatim>\<open>Foo\<close> and \<^verbatim>\<open>foo\<close>
  and different overloads gives two different outputs in its two orders.
\<close>

theorem deterministic_output_counterexample:
  "mset [(''Foo'', [plainBuiltin ''int'' ''int'']), (''foo'', [plainBuiltin ''string'' ''string''])]
     = mset [(''foo'', [plainBuiltin ''string'' ''string'']), (''Foo'', [plainBuiltin ''int'' ''int''])]
   \<and> generateFunctions ToLowerASCII id
        [(''Foo'', [plainBuiltin ''int'' ''int'']), (''foo'', [plainBuiltin ''string'' ''string''])] True
     \<noteq> generateFunctions ToLowerASCII id
        [(''foo'', [plainBuiltin ''string'' ''string'']), (''Foo'', [plainBuiltin ''int'' ''int''])] True"
proof -
  have "generateFunctions ToLowerASCII id
        [(''Foo'', [plainBuiltin ''int'' ''int'']), (''foo'', [plainBuiltin ''string'' ''string''])] True
     \<noteq> generateFunctions ToLowerASCII id
        [(''foo'', [plainBuiltin ''string'' ''string'']), (''Foo'', [plainBuiltin ''int'' ''int''])] True"
    by code_simp
  then show ?thesis by (simp add: add_mset_commute)
qed

text \<open>
  C1, amended: when the keys of the function catalog that have the same lower-case
  form have the same overloads, the output for the functions is the same for every
  order of the iteration; the output for the operators is the same for every order of
  the iteration of the three catalogs.
\<close>

theorem deterministic_output:
  assumes "mset from1 = mset from2" and "aliasesAgree ToLower from1"
    and "mset UnaryOps1 = mset UnaryOps2" and "mset BinOps1 = mset BinOps2"
    and "mset CmpOps1 = mset CmpOps2"
  shows "generateFunctions ToLower md from1 categorize
           = generateFunctions ToLower md from2 categorize
         \<and> generateOperators UnaryOps1 BinOps1 CmpOps1
           = generateOperators UnaryOps2 BinOps2 CmpOps2"
proof -
  have "set from1 = set from2" using assms(1) by (rule mset_eq_setD)
  then have "generateFunctions ToLower md from1 categorize
           = generateFunctions ToLower md from2 categorize"
    using assms(2) by (rule generateFunctions_perm)
  moreover have "generateOperators UnaryOps1 BinOps1 CmpOps1
           = generateOperators UnaryOps2 BinOps2 CmpOps2"
    using assms(3-5) by (rule generateOperators_perm)
  ultimately show ?thesis by simp
qed

theorem deterministic_output_witness:
  "mset [(''lower'', [plainBuiltin ''string'' ''string'']), (''abs'', [plainBuiltin ''int'' ''int'']),
         (''LOWER'', [plainBuiltin ''string'' ''string''])]
     = mset [(''LOWER'', [plainBuiltin ''string'' ''string'']),
         (''lower'', [plainBuiltin ''string'' ''string'']), (''abs'', [plainBuiltin ''int'' ''int''])]
   \<and> aliasesAgree ToLowerASCII
        [(''lower'', [plainBuiltin ''string'' ''string'']), (''abs'', [plainBuiltin ''int'' ''int'']),
         (''LOWER'', [plainBuiltin ''string'' ''string''])]
   \<and> generateFunctions ToLowerASCII id
        [(''lower'', [plainBuiltin ''string'' ''string'']), (''abs'', [plainBuiltin ''int'' ''int'']),
         (''LOWER'', [plainBuiltin ''string'' ''string''])] True
     = generateFunctions ToLowerASCII id
        [(''LOWER'', [plainBuiltin ''string'' ''string'']),
         (''lower'', [plainBuiltin ''string'' ''string'']), (''abs'', [plainBuiltin ''int'' ''int''])] True
   \<and> generateOperators
        [(''-'', [\<lparr>UnaryOp_Typ = ''int'', UnaryOp_ReturnType = ''int''\<rparr>]),
         (''~'', [\<lparr>UnaryOp_Typ = ''int'', UnaryOp_ReturnType = ''int''\<rparr>])]
        [(''-'', [\<lparr>BinOp_LeftType = ''int'', BinOp_RightType = ''int'', BinOp_ReturnType = ''int''\<rparr>])]
        [(''<'', [\<lparr>CmpOp_LeftType = ''int'', CmpOp_RightType = ''int''\<rparr>])]
     = generateOperators
        [(''~'', [\<lparr>UnaryOp_Typ = ''int'', UnaryOp_ReturnType = ''int''\<rparr>]),
         (''-'', [\<lparr>UnaryOp_Typ = ''int'', UnaryOp_ReturnType = ''int''\<rparr>])]
        [(''-'', [\<lparr>BinOp_LeftType = ''int'', BinOp_RightType = ''int'', BinOp_ReturnType = ''int''\<rparr>])]
        [(''<'', [\<lparr>CmpOp_LeftType = ''int'', CmpOp_RightType = ''int''\<rparr>])]"
proof -
  have m: "mset [(''lower'', [plainBuiltin ''string'' ''string'']), (''abs'', [plainBuiltin ''int'' ''int'']),
         (''LOWER'', [plainBuiltin ''string'' ''string''])]
     = mset [(''LOWER'', [plainBuiltin ''string'' ''string'']),
         (''lower'', [plainBuiltin ''string'' ''string'']), (''abs'', [plainBuiltin ''int'' ''int''])]"
    by (simp add: add_mset_commute)
  have a: "aliasesAgree ToLowerASCII
        [(''lower'', [plainBuiltin ''string'' ''string'']), (''abs'', [plainBuiltin ''int'' ''int'']),
         (''LOWER'', [plainBuiltin ''string'' ''string''])]"
    by code_simp
  have u: "mset [(''-'', [\<lparr>UnaryOp_Typ = ''int'', UnaryOp_ReturnType = ''int''\<rparr>]),
         (''~'', [\<lparr>UnaryOp_Typ = ''int'', UnaryOp_ReturnType = ''int''\<rparr>])]
      = mset [(''~'', [\<lparr>UnaryOp_Typ = ''int'', UnaryOp_ReturnType = ''int''\<rparr>]),
         (''-'', [\<lparr>UnaryOp_Typ = ''int'', UnaryOp_ReturnType = ''int''\<rparr>])]"
    by (simp add: add_mset_commute)
  show ?thesis
    using deterministic_output[OF m a u refl refl, of id True
        "[(''-'', [\<lparr>BinOp_LeftType = ''int'', BinOp_RightType = ''int'', BinOp_ReturnType = ''int''\<rparr>])]"
        "[(''<'', [\<lparr>CmpOp_LeftType = ''int'', CmpOp_RightType = ''int''\<rparr>])]"] m a
    by simp
qed

end
